theory Spec2Isabelle
  imports Main
begin

section \<open>The kqueue+fsevents watcher of watchman (watcher/kqueue_and_fsevents.cpp)\<close>

type_synonym w_string = string

subsection \<open>PendingEventsCond: the stop-aware condition shared by the threads\<close>

text \<open>
  \<^verbatim>\<open>struct Inner { bool shouldStop{}; bool hasPending{}; }\<close>, kept behind one mutex.
  Both flags start out false.
\<close>

record Inner =
  shouldStop :: bool
  hasPending :: bool

definition Inner_init :: Inner where
  "Inner_init = \<lparr>shouldStop = False, hasPending = False\<rparr>"

text \<open>
  The condition variable \<^verbatim>\<open>cond_\<close> holds no data of its own. Every method reports the calls it
  makes on it: \<^verbatim>\<open>notify_one\<close> releases one waiting thread, \<^verbatim>\<open>notify_all\<close> releases all of them,
  \<^verbatim>\<open>wait_for\<close> blocks the caller.
\<close>

datatype cond_call = notify_one | notify_all | wait_for int

text \<open>\<^verbatim>\<open>notifyOneOrStop\<close>: true when the caller should stop.\<close>

definition notifyOneOrStop :: "Inner \<Rightarrow> bool \<times> Inner \<times> cond_call list" where
  "notifyOneOrStop lock =
     (if shouldStop lock then (True, lock, [])
      else (False, lock\<lparr>hasPending := True\<rparr>, [notify_one]))"

definition shouldStop_query :: "Inner \<Rightarrow> bool" where
  "shouldStop_query lock = shouldStop lock"

text \<open>\<^verbatim>\<open>stopAll\<close>: notify all the waiting threads to stop.\<close>

definition stopAll :: "Inner \<Rightarrow> Inner \<times> cond_call list" where
  "stopAll lock = (lock\<lparr>shouldStop := True\<rparr>, [notify_all])"

text \<open>
  While a thread is blocked in \<^verbatim>\<open>cond_.wait_for\<close> the mutex is released, and the other threads
  can run the two methods that write the flags.
\<close>

datatype producer_call = ProducerNotify | ProducerStopAll

fun producer_step :: "Inner \<Rightarrow> producer_call \<Rightarrow> Inner" where
  "producer_step lock ProducerNotify = fst (snd (notifyOneOrStop lock))"
| "producer_step lock ProducerStopAll = fst (stopAll lock)"

text \<open>
  \<^verbatim>\<open>wait(timeoutms)\<close>: returns false at once when stop was requested; otherwise it blocks,
  \<open>others\<close> being what the other threads do to the flags in the meantime, and returns
  \<^verbatim>\<open>hasPending\<close> as it is when the caller runs again.
\<close>

definition wait :: "int \<Rightarrow> producer_call list \<Rightarrow> Inner \<Rightarrow> bool \<times> Inner \<times> cond_call list" where
  "wait timeoutms others lock =
     (if shouldStop lock then (False, lock, [])
      else (let lock' = foldl producer_step lock others
            in (hasPending lock', lock', [wait_for timeoutms])))"

text \<open>A call of one of the three state-changing methods, with what happens during a wait.\<close>

datatype gate_call = CallNotifyOneOrStop | CallWait int "producer_call list" | CallStopAll

fun gate_step :: "Inner \<Rightarrow> gate_call \<Rightarrow> Inner" where
  "gate_step lock CallNotifyOneOrStop = fst (snd (notifyOneOrStop lock))"
| "gate_step lock (CallWait timeoutms others) = fst (snd (wait timeoutms others lock))"
| "gate_step lock CallStopAll = fst (stopAll lock)"

definition gate_run :: "Inner \<Rightarrow> gate_call list \<Rightarrow> Inner" where
  "gate_run lock calls = foldl gate_step lock calls"

subsection \<open>Pending events and the leaf watchers\<close>

text \<open>
  Modelled from the spec: the flag constants \<^verbatim>\<open>W_PENDING_...\<close>, defined in a header outside
  this file. The flags of an event are a bit-set; a flag word is the set of the flags it
  holds, and \<^verbatim>\<open>|\<close> is union.
\<close>

datatype pending_flag =
  W_PENDING_RECURSIVE | W_PENDING_VIA_NOTIFY | W_PENDING_CRAWL_ONLY | W_PENDING_IS_DESYNCED

record PendingEvent =
  ev_path :: w_string
  ev_time :: nat
  ev_flags :: "pending_flag set"

text \<open>
  Modelled from the spec: the event sink \<^verbatim>\<open>PendingCollection\<close>, whose \<^verbatim>\<open>add(path, timestamp, flags)\<close>
  is declared outside this file. The sink is the sequence of the entries added to it.
\<close>

type_synonym PendingCollection = "PendingEvent list"

definition coll_add ::
  "PendingCollection \<Rightarrow> w_string \<Rightarrow> nat \<Rightarrow> pending_flag set \<Rightarrow> PendingCollection" where
  "coll_add coll p t fl = coll @ [\<lparr>ev_path = p, ev_time = t, ev_flags = fl\<rparr>]"

text \<open>
  Modelled from the spec: the leaf watchers \<^verbatim>\<open>FSEventsWatcher\<close> and \<^verbatim>\<open>KQueueWatcher\<close>, whose
  code is outside this file. A leaf watcher holds the changes it has detected and not yet
  handed over, whether it has become unusable, and whether it was asked to stop. Its
  \<^verbatim>\<open>consumeNotify\<close> moves the detected changes into the sink and answers
  \<^verbatim>\<open>{addedPending, cancelSelf}\<close>.
\<close>

record LeafWatcher =
  detected :: "PendingEvent list"
  unusable :: bool
  stopRequested :: bool

definition leaf_new :: LeafWatcher where
  "leaf_new = \<lparr>detected = [], unusable = False, stopRequested = False\<rparr>"

definition leaf_consumeNotify ::
  "LeafWatcher \<Rightarrow> PendingCollection \<Rightarrow> LeafWatcher \<times> PendingCollection \<times> bool \<times> bool" where
  "leaf_consumeNotify w coll =
     (w\<lparr>detected := []\<rparr>, coll @ detected w, detected w \<noteq> [], unusable w)"

definition leaf_signalThreads :: "LeafWatcher \<Rightarrow> LeafWatcher" where
  "leaf_signalThreads w = w\<lparr>stopRequested := True\<rparr>"

subsection \<open>The map of the subdirectory watchers and its iterators\<close>

text \<open>
  \<^verbatim>\<open>std::unordered_map<w_string, std::shared_ptr<FSEventsWatcher>>\<close>: the elements in the
  order the map iterates them. An iterator is the chain of keys from its element to the end
  of the map; the empty chain is \<^verbatim>\<open>end()\<close>. Erasing an element invalidates the iterators that
  stand on it: reading through such an iterator or advancing it is undefined behaviour,
  which the model returns as a fault.
\<close>

datatype fault = InvalidIterator | NullPointer

type_synonym 'v umap = "(w_string \<times> 'v) list"
type_synonym iterator = "w_string list"

definition umap_begin :: "'v umap \<Rightarrow> iterator" where
  "umap_begin m = map fst m"

definition umap_end :: iterator where
  "umap_end = []"

definition umap_find :: "'v umap \<Rightarrow> w_string \<Rightarrow> iterator" where
  "umap_find m k = dropWhile (\<lambda>k'. k' \<noteq> k) (map fst m)"

definition umap_emplace :: "'v umap \<Rightarrow> w_string \<Rightarrow> 'v \<Rightarrow> 'v umap \<times> iterator \<times> bool" where
  "umap_emplace m k v =
     (if umap_find m k = umap_end then (m @ [(k, v)], [k], True)
      else (m, umap_find m k, False))"

definition umap_erase :: "'v umap \<Rightarrow> w_string \<Rightarrow> 'v umap" where
  "umap_erase m k = filter (\<lambda>e. fst e \<noteq> k) m"

fun umap_deref :: "'v umap \<Rightarrow> iterator \<Rightarrow> fault + w_string \<times> 'v" where
  "umap_deref m [] = Inl InvalidIterator"
| "umap_deref m (k # rest) =
     (case map_of m k of None \<Rightarrow> Inl InvalidIterator | Some v \<Rightarrow> Inr (k, v))"

fun umap_next :: "'v umap \<Rightarrow> iterator \<Rightarrow> fault + iterator" where
  "umap_next m [] = Inl InvalidIterator"
| "umap_next m (k # rest) =
     (case map_of m k of None \<Rightarrow> Inl InvalidIterator | Some v \<Rightarrow> Inr rest)"

lemma umap_next_shorter: "umap_next m it = Inr it' \<Longrightarrow> length it' < length it"
  by (cases it) (auto split: option.splits)

text \<open>A write through the shared pointer stored under a key: the map's shape stays.\<close>

definition umap_store :: "'v umap \<Rightarrow> w_string \<Rightarrow> 'v \<Rightarrow> 'v umap" where
  "umap_store m k v = map (\<lambda>e. if fst e = k then (k, v) else e) m"

subsection \<open>The composite watcher\<close>

text \<open>
  The calls the watcher makes on its collaborators: the root's cookie directories, the leaf
  watchers and the monitor threads it spawns.
\<close>

datatype leaf_ref = KQueue | FSEvents w_string

datatype call =
  addCookieDir w_string
| removeCookieDir w_string
| leaf_start leaf_ref
| leaf_startWatchDir leaf_ref w_string
| leaf_signal leaf_ref
| thread_spawn leaf_ref

text \<open>
  The members of \<^verbatim>\<open>KQueueAndFSEventsWatcher\<close>, with the path of the root it serves and the
  calls made so far.
\<close>

record state =
  root_path :: w_string
  fseventWatchers :: "LeafWatcher umap"
  kqueueWatcher :: LeafWatcher
  pendingCondition :: Inner
  injectedRecrawl :: "w_string option"
  calls :: "call list"

definition state_init :: "w_string \<Rightarrow> state" where
  "state_init r =
     \<lparr>root_path = r, fseventWatchers = [], kqueueWatcher = leaf_new,
      pendingCondition = Inner_init, injectedRecrawl = None, calls = []\<rparr>"

definition called :: "call \<Rightarrow> state \<Rightarrow> state" where
  "called c st = st\<lparr>calls := calls st @ [c]\<rparr>"

text \<open>
  The exceptions: the \<^verbatim>\<open>std::runtime_error\<close> that \<^verbatim>\<open>startWatchDir\<close> throws, and the
  \<^verbatim>\<open>std::system_error\<close> that the constructor of \<^verbatim>\<open>std::thread\<close> throws when the system does not
  grant a thread.
\<close>

datatype error = runtime_error string | system_error

text \<open>
  \<^verbatim>\<open>startThread\<close>: constructs the monitor thread of a leaf watcher, detaches it and returns
  true. \<open>spawn_ok\<close> is whether the system grants the thread; when it does not, the
  constructor throws and nothing is spawned. No exit returns false.
\<close>

definition startThread :: "bool \<Rightarrow> leaf_ref \<Rightarrow> state \<Rightarrow> state \<times> (error + bool)" where
  "startThread spawn_ok target st =
     (if spawn_ok then (called (thread_spawn target) st, Inr True)
      else (st, Inl system_error))"

text \<open>
  \<^verbatim>\<open>start\<close>: registers the root's cookie directory, then starts the monitor thread of the kqueue
  watcher; an exception of \<^verbatim>\<open>startThread\<close> passes through, the cookie directory staying
  registered.
\<close>

definition start :: "bool \<Rightarrow> state \<Rightarrow> state \<times> (error + bool)" where
  "start spawn_ok st = startThread spawn_ok KQueue (called (addCookieDir (root_path st)) st)"

text \<open>
  Modelled from the spec: \<^verbatim>\<open>struct watchman_dir\<close> and its \<^verbatim>\<open>getFullPath\<close>, declared outside this
  file. A directory has a name and a parent, the watched root having none; paths are
  absolute: the root's name is its path, and a directory's path is its parent's path, a
  slash and its name.
\<close>

datatype watchman_dir = Dir (dir_name: w_string) (dir_parent: "watchman_dir option")

fun getFullPath :: "watchman_dir \<Rightarrow> w_string" where
  "getFullPath (Dir n None) = n"
| "getFullPath (Dir n (Some p)) = getFullPath p @ ''/'' @ n"

text \<open>The directories above a directory, nearest first.\<close>

fun ancestors :: "watchman_dir \<Rightarrow> watchman_dir list" where
  "ancestors (Dir n None) = []"
| "ancestors (Dir n (Some p)) = p # ancestors p"

text \<open>The handle that \<^verbatim>\<open>w_dir_open(path)\<close> returns (declared outside this file).\<close>

datatype dir_handle = w_dir_open string

text \<open>
  \<^verbatim>\<open>startWatchDir\<close>. \<open>start_ok\<close> is what \<^verbatim>\<open>FSEventsWatcher::start\<close> answers when a new
  watcher is started, \<open>spawn_ok\<close> whether the system grants its monitor thread. An exception
  leaves the changes made before it in place.
\<close>

definition startWatchDir ::
  "bool \<Rightarrow> bool \<Rightarrow> watchman_dir \<Rightarrow> string \<Rightarrow> state \<Rightarrow> state \<times> (error + dir_handle)" where
  "startWatchDir start_ok spawn_ok dir p st =
     (case dir_parent dir of
        None \<Rightarrow> (called (leaf_startWatchDir KQueue p) st, Inr (w_dir_open p))
      | Some parent \<Rightarrow>
          if getFullPath parent = root_path st then
            (let fullPath = getFullPath dir in
             if umap_find (fseventWatchers st) fullPath = umap_end then
               (let st1 = called (addCookieDir fullPath) st;
                    st2 = st1\<lparr>fseventWatchers :=
                            fst (umap_emplace (fseventWatchers st1) fullPath leaf_new)\<rparr>;
                    st3 = called (leaf_start (FSEvents fullPath)) st2
                in if \<not> start_ok then (st3, Inl (runtime_error ''couldn't start fsEvent''))
                   else (case startThread spawn_ok (FSEvents fullPath) st3 of
                           (st4, Inl e) \<Rightarrow> (st4, Inl e)
                         | (st4, Inr started) \<Rightarrow>
                             if \<not> started then (st4, Inl (runtime_error ''couldn't start fsEvent''))
                             else (st4, Inr (w_dir_open p))))
             else (st, Inr (w_dir_open p)))
          else (st, Inr (w_dir_open p)))"

text \<open>
  The test that \<^verbatim>\<open>startWatchDir\<close> makes of a directory: it has a parent, whose full path is the
  root's path.
\<close>

definition top_level :: "state \<Rightarrow> watchman_dir \<Rightarrow> bool" where
  "top_level st d = (map_option getFullPath (dir_parent d) = Some (root_path st))"

text \<open>A sequence of registrations; a failed one throws to its caller and the next one runs.\<close>

fun startWatchDirs ::
  "(bool \<times> bool \<times> watchman_dir \<times> string) list \<Rightarrow> state \<Rightarrow> state" where
  "startWatchDirs [] st = st"
| "startWatchDirs ((start_ok, spawn_ok, dir, p) # rs) st =
     startWatchDirs rs (fst (startWatchDir start_ok spawn_ok dir p st))"

text \<open>\<^verbatim>\<open>injectRecrawl\<close>: stores the path, then notifies; the answer of the notification is dropped.\<close>

definition injectRecrawl :: "w_string \<Rightarrow> state \<Rightarrow> state" where
  "injectRecrawl p st =
     (let st1 = st\<lparr>injectedRecrawl := Some p\<rparr>
      in st1\<lparr>pendingCondition := fst (snd (notifyOneOrStop (pendingCondition st1)))\<rparr>)"

definition injectRecrawls :: "w_string list \<Rightarrow> state \<Rightarrow> state" where
  "injectRecrawls ps st = foldl (\<lambda>s p. injectRecrawl p s) st ps"

definition waitNotify :: "int \<Rightarrow> producer_call list \<Rightarrow> state \<Rightarrow> bool \<times> state" where
  "waitNotify timeoutms others st =
     (case wait timeoutms others (pendingCondition st) of
        (r, lock', _) \<Rightarrow> (r, st\<lparr>pendingCondition := lock'\<rparr>))"

text \<open>\<^verbatim>\<open>consumeNotify\<close>, first block: the injected recrawl. \<open>now\<close> is what \<^verbatim>\<open>gettimeofday\<close> reads.\<close>

definition consumeNotify_injected ::
  "nat \<Rightarrow> state \<Rightarrow> PendingCollection \<Rightarrow> state \<times> PendingCollection" where
  "consumeNotify_injected now st coll =
     (case injectedRecrawl st of
        None \<Rightarrow> (st, coll)
      | Some injectedDir \<Rightarrow>
          (st\<lparr>injectedRecrawl := None\<rparr>,
           coll_add coll injectedDir now
             ({W_PENDING_VIA_NOTIFY} \<union> {W_PENDING_RECURSIVE} \<union> {W_PENDING_IS_DESYNCED})))"

text \<open>
  Second block: the range-for over the map, from the iterator \<open>it\<close> on. \<^verbatim>\<open>continue\<close> and the
  end of the body both advance the iterator; after \<^verbatim>\<open>erase(watchpath)\<close> it is the iterator of
  the erased element that is advanced. The state and the sink reached are returned with
  the fault.
\<close>

function consumeNotify_fsevents ::
  "state \<Rightarrow> PendingCollection \<Rightarrow> iterator \<Rightarrow> bool \<Rightarrow>
     (state \<times> PendingCollection) \<times> (fault + bool)" where
  "consumeNotify_fsevents st coll it ret =
     (if it = umap_end then ((st, coll), Inr ret)
      else
        (case umap_deref (fseventWatchers st) it of
           Inl f \<Rightarrow> ((st, coll), Inl f)
         | Inr (watchpath, fsevent) \<Rightarrow>
             (case leaf_consumeNotify fsevent coll of
                (fsevent', coll', addedPending, cancelSelf) \<Rightarrow>
                  (let st1 = st\<lparr>fseventWatchers :=
                               umap_store (fseventWatchers st) watchpath fsevent'\<rparr>
                   in if cancelSelf then
                        (let st2 = called (leaf_signal (FSEvents watchpath))
                                     (st1\<lparr>fseventWatchers :=
                                        umap_store (fseventWatchers st1) watchpath
                                          (leaf_signalThreads fsevent')\<rparr>);
                             st3 = called (removeCookieDir watchpath) st2;
                             st4 = st3\<lparr>fseventWatchers :=
                                     umap_erase (fseventWatchers st3) watchpath\<rparr>
                         in (case umap_next (fseventWatchers st4) it of
                               Inl f \<Rightarrow> ((st4, coll'), Inl f)
                             | Inr it' \<Rightarrow> consumeNotify_fsevents st4 coll' it' ret))
                      else
                        (case umap_next (fseventWatchers st1) it of
                           Inl f \<Rightarrow> ((st1, coll'), Inl f)
                         | Inr it' \<Rightarrow>
                             consumeNotify_fsevents st1 coll' it' (ret \<or> addedPending))))))"
  by pat_completeness auto
termination
  by (relation "measure (\<lambda>(st, coll, it, ret). length it)")
     (auto dest: umap_next_shorter)

declare consumeNotify_fsevents.simps [simp del]

text \<open>
  What the three statements of the \<^verbatim>\<open>cancelSelf\<close> branch leave behind for the element under
  \<open>k\<close>, whose watcher \<open>w\<close> has just been drained: the watcher is told to stop, the cookie
  directory is removed, the element is erased.
\<close>

definition teardown :: "w_string \<Rightarrow> LeafWatcher \<Rightarrow> state \<Rightarrow> state" where
  "teardown k w st =
     st\<lparr>fseventWatchers := umap_erase (umap_store (fseventWatchers st) k
            (leaf_signalThreads (w\<lparr>detected := []\<rparr>))) k,
        calls := calls st @ [leaf_signal (FSEvents k), removeCookieDir k]\<rparr>"

text \<open>\<^verbatim>\<open>consumeNotify\<close>: the three blocks in turn.\<close>

definition consumeNotify ::
  "nat \<Rightarrow> state \<Rightarrow> PendingCollection \<Rightarrow>
     (state \<times> PendingCollection) \<times> (fault + bool \<times> bool)" where
  "consumeNotify now st coll =
     (case consumeNotify_injected now st coll of
        (st1, coll1) \<Rightarrow>
          (case consumeNotify_fsevents st1 coll1 (umap_begin (fseventWatchers st1)) False of
             ((st2, coll2), Inl f) \<Rightarrow> ((st2, coll2), Inl f)
           | ((st2, coll2), Inr ret) \<Rightarrow>
               (case leaf_consumeNotify (kqueueWatcher st2) coll2 of
                  (kq', coll3, addedPending, cancelSelf) \<Rightarrow>
                    ((st2\<lparr>kqueueWatcher := kq'\<rparr>, coll3),
                     Inr (ret \<or> addedPending, cancelSelf)))))"

text \<open>\<^verbatim>\<open>signalThreads\<close>: stops the condition, every subdirectory watcher and the root watcher.\<close>

definition signalThreads :: "state \<Rightarrow> state" where
  "signalThreads st =
     (let st1 = st\<lparr>pendingCondition := fst (stopAll (pendingCondition st))\<rparr>;
          st2 = st1\<lparr>fseventWatchers :=
                  map (\<lambda>e. (fst e, leaf_signalThreads (snd e))) (fseventWatchers st1),
                  calls := calls st1 @ map (\<lambda>e. leaf_signal (FSEvents (fst e))) (fseventWatchers st1)\<rparr>
      in called (leaf_signal KQueue) (st2\<lparr>kqueueWatcher := leaf_signalThreads (kqueueWatcher st2)\<rparr>))"

subsection \<open>The command debug-kqueue-and-fsevents-recrawl\<close>

text \<open>
  The JSON values of the arguments, with the three accessors the command uses (a library
  outside this file): the size of an array, which is 0 for any other value, the element at
  an index, and the string of a string value, which is null for any other value.
\<close>

datatype json = json_null | json_bool bool | json_integer int | json_string string | json_array "json list"

fun json_array_size :: "json \<Rightarrow> nat" where
  "json_array_size (json_array xs) = length xs"
| "json_array_size _ = 0"

fun json_string_value :: "json \<Rightarrow> string option" where
  "json_string_value (json_string s) = Some s"
| "json_string_value _ = None"

fun json_at :: "json \<Rightarrow> nat \<Rightarrow> json" where
  "json_at (json_array xs) i = (if i < length xs then xs ! i else json_null)"
| "json_at _ i = json_null"

text \<open>
  What a root's view can be: an \<^verbatim>\<open>InMemoryView\<close> over some watcher, or another kind of view.
  \<^verbatim>\<open>watcherFromRoot\<close> is the two dynamic casts.
\<close>

datatype watcher = KQueueAndFSEventsWatcher state | OtherWatcher

datatype view = InMemoryView watcher | OtherView

fun watcherFromRoot :: "view \<Rightarrow> state option" where
  "watcherFromRoot (InMemoryView (KQueueAndFSEventsWatcher st)) = Some st"
| "watcherFromRoot _ = None"

datatype response = error_response string | ok_response

text \<open>
  \<^verbatim>\<open>cmd_debug_kqueue_and_fsevents_recrawl\<close>. \<open>root\<close> is the view of the root that
  \<^verbatim>\<open>resolveRoot\<close> finds for the arguments. \<open>to_w_string\<close> is the conversion of the
  \<^verbatim>\<open>const char*\<close> that \<^verbatim>\<open>json_string_value\<close> returns (null for a value that is not a string)
  into the \<^verbatim>\<open>w_string\<close> parameter of \<^verbatim>\<open>injectRecrawl\<close>; the constructor is declared outside this
  file. The result is the view, the responses sent to the client, and whether the command
  returned.
\<close>

definition cmd_debug_kqueue_and_fsevents_recrawl ::
  "(string option \<Rightarrow> fault + w_string) \<Rightarrow> view \<Rightarrow> json \<Rightarrow>
     (view \<times> response list) \<times> (fault + unit)" where
  "cmd_debug_kqueue_and_fsevents_recrawl to_w_string root args =
     (if json_array_size args \<noteq> 3 then
        ((root, [error_response
           ''wrong number of arguments for 'debug-kqueue-and-fsevents-recrawl' '']), Inr ())
      else
        (case watcherFromRoot root of
           None \<Rightarrow>
             ((root, [error_response ''root is not using the kqueue+fsevents watcher'']), Inr ())
         | Some watcher \<Rightarrow>
             (let p = json_string_value (json_at args 2);
                  sent = (if p = None then
                            [error_response
                               ''invalid value for argument 2, expected a string naming the path to trigger a recrawl on'']
                          else [])
              in (case to_w_string p of
                    Inl f \<Rightarrow> ((root, sent), Inl f)
                  | Inr wp \<Rightarrow>
                      ((InMemoryView (KQueueAndFSEventsWatcher (injectRecrawl wp watcher)),
                        sent @ [ok_response]), Inr ())))))"

text \<open>
  A constructor that measures the C string it is given: a null pointer cannot be read, any
  other string is taken as it is.
\<close>

fun w_string_of_cstr :: "string option \<Rightarrow> fault + w_string" where
  "w_string_of_cstr None = Inl NullPointer"
| "w_string_of_cstr (Some s) = Inr s"

section \<open>Properties\<close>

subsection \<open>The condition\<close>

text \<open>
  C7. When stop was already requested, \<^verbatim>\<open>notifyOneOrStop\<close> returns true, leaves both flags as
  they are and makes no call on the condition variable (nobody is woken); otherwise it sets
  \<^verbatim>\<open>hasPending\<close>, leaves \<^verbatim>\<open>shouldStop\<close> false, calls \<^verbatim>\<open>notify_one\<close> exactly once (one waiter
  is woken) and returns false.
\<close>

theorem notifyOneOrStop_spec:
  "notifyOneOrStop lock =
     (if shouldStop lock then (True, lock, [])
      else (False, \<lparr>shouldStop = False, hasPending = True\<rparr>, [notify_one]))"
  by (cases lock) (simp add: notifyOneOrStop_def)

lemma producer_step_keeps_stop: "shouldStop lock \<Longrightarrow> shouldStop (producer_step lock c)"
  by (cases c) (simp_all add: notifyOneOrStop_def stopAll_def)

lemma producer_steps_keep_stop: "shouldStop lock \<Longrightarrow> shouldStop (foldl producer_step lock cs)"
  by (induction cs arbitrary: lock) (simp_all add: producer_step_keeps_stop)

lemma gate_step_keeps_stop: "shouldStop lock \<Longrightarrow> shouldStop (gate_step lock c)"
  by (cases c) (simp_all add: notifyOneOrStop_def stopAll_def wait_def)

lemma gate_run_keeps_stop: "shouldStop lock \<Longrightarrow> shouldStop (gate_run lock cs)"
  unfolding gate_run_def
  by (induction cs arbitrary: lock) (simp_all add: gate_step_keeps_stop)

lemma stopAll_twice: "fst (stopAll (fst (stopAll lock))) = fst (stopAll lock)"
  by (simp add: stopAll_def)

lemma stopAll_funpow:
  "0 < n \<Longrightarrow> ((\<lambda>l. fst (stopAll l)) ^^ n) lock = fst (stopAll lock)"
proof (induction n)
  case 0
  then show ?case by simp
next
  case (Suc n)
  show ?case
  proof (cases n)
    case 0
    then show ?thesis by simp
  next
    case (Suc m)
    with Suc.IH have "((\<lambda>l. fst (stopAll l)) ^^ n) lock = fst (stopAll lock)" by simp
    then show ?thesis by (simp add: stopAll_twice)
  qed
qed

text \<open>
  C8. A stop flag that is set stays set under every sequence of calls of
  \<^verbatim>\<open>notifyOneOrStop\<close>, \<^verbatim>\<open>wait\<close> and \<^verbatim>\<open>stopAll\<close>, whatever the other threads do during the
  waits; in particular it stays set after \<^verbatim>\<open>stopAll\<close>. Calling \<^verbatim>\<open>stopAll\<close> \<open>n > 0\<close> times
  leaves the flags as one call does, and every call issues \<^verbatim>\<open>notify_all\<close>. \<^verbatim>\<open>stopAll\<close> has no
  failing exit.
\<close>

theorem stop_permanent_stopAll_idempotent:
  "(shouldStop stopped \<longrightarrow> shouldStop (gate_run stopped cs)) \<and>
   shouldStop (gate_run (fst (stopAll lock)) cs) \<and>
   (0 < n \<longrightarrow> ((\<lambda>l. fst (stopAll l)) ^^ n) lock = fst (stopAll lock)) \<and>
   snd (stopAll lock) = [notify_all]"
  using gate_run_keeps_stop [of stopped cs] gate_run_keeps_stop [of "fst (stopAll lock)" cs]
    stopAll_funpow [of n lock]
  by (simp add: stopAll_def)

theorem stop_permanent_stopAll_idempotent_witness:
  "shouldStop (gate_run \<lparr>shouldStop = True, hasPending = False\<rparr>
      [CallNotifyOneOrStop, CallWait 86400 [ProducerNotify], CallStopAll, CallWait 0 []]) \<and>
   ((\<lambda>l. fst (stopAll l)) ^^ 3) Inner_init = fst (stopAll Inner_init) \<and>
   fst (stopAll Inner_init) = \<lparr>shouldStop = True, hasPending = False\<rparr>"
  using stop_permanent_stopAll_idempotent
    [of "\<lparr>shouldStop = True, hasPending = False\<rparr>"
        "[CallNotifyOneOrStop, CallWait 86400 [ProducerNotify], CallStopAll, CallWait 0 []]"
        Inner_init 3]
  by (simp add: stopAll_def Inner_init_def)

subsection \<open>The loop over the subdirectory watchers, one step at a time\<close>

lemma map_of_umap_erase: "map_of (umap_erase m k) k = None"
  by (induction m) (auto simp: umap_erase_def)

lemma map_of_umap_store_same:
  "map_of m k = Some w \<Longrightarrow> map_of (umap_store m k v) k = Some v"
  by (induction m) (auto simp: umap_store_def split: if_splits)

lemma umap_store_twice: "umap_store (umap_store m k v) k v' = umap_store m k v'"
  by (induction m) (auto simp: umap_store_def)

lemma loop_end: "consumeNotify_fsevents st coll [] ret = ((st, coll), Inr ret)"
  by (simp add: consumeNotify_fsevents.simps umap_end_def)

lemma loop_invalid:
  "map_of (fseventWatchers st) k = None \<Longrightarrow>
   consumeNotify_fsevents st coll (k # rest) ret = ((st, coll), Inl InvalidIterator)"
  by (simp add: consumeNotify_fsevents.simps [of st coll "k # rest"] umap_end_def)

text \<open>
  A watcher that cancels itself is torn down, and the step of the iterator that follows
  finds its element erased.
\<close>

lemma loop_cancel:
  "map_of (fseventWatchers st) k = Some w \<Longrightarrow> unusable w \<Longrightarrow>
   consumeNotify_fsevents st coll (k # rest) ret =
     ((teardown k w st, coll @ detected w), Inl InvalidIterator)"
  by (simp add: consumeNotify_fsevents.simps [of st coll "k # rest"] umap_end_def
      leaf_consumeNotify_def called_def teardown_def map_of_umap_erase umap_store_twice)

lemma loop_keep:
  "map_of (fseventWatchers st) k = Some w \<Longrightarrow> \<not> unusable w \<Longrightarrow>
   consumeNotify_fsevents st coll (k # rest) ret =
     consumeNotify_fsevents
       (st\<lparr>fseventWatchers := umap_store (fseventWatchers st) k (w\<lparr>detected := []\<rparr>)\<rparr>)
       (coll @ detected w) rest (ret \<or> detected w \<noteq> [])"
  by (simp add: consumeNotify_fsevents.simps [of st coll "k # rest"] umap_end_def
      leaf_consumeNotify_def map_of_umap_store_same)

text \<open>The loop writes the map and the call log only.\<close>

lemma loop_frame:
  assumes "\<And>s m. P (s\<lparr>fseventWatchers := m\<rparr>) = P s"
      and "\<And>s c. P (s\<lparr>calls := c\<rparr>) = P s"
  shows "P (fst (fst (consumeNotify_fsevents st coll it ret))) = P st"
proof (induction it arbitrary: st coll ret)
  case Nil
  show ?case by (simp add: loop_end)
next
  case (Cons k rest)
  show ?case
  proof (cases "map_of (fseventWatchers st) k")
    case None
    then show ?thesis by (simp add: loop_invalid)
  next
    case (Some w)
    show ?thesis
    proof (cases "unusable w")
      case True
      with Some show ?thesis by (simp add: loop_cancel teardown_def assms)
    next
      case False
      with Some show ?thesis by (simp add: loop_keep Cons.IH assms)
    qed
  qed
qed

lemma consumeNotify_gate:
  "pendingCondition (fst (fst (consumeNotify now st coll))) = pendingCondition st"
proof -
  obtain st1 coll1 where inj: "consumeNotify_injected now st coll = (st1, coll1)"
    by (cases "consumeNotify_injected now st coll")
  then have g1: "pendingCondition st1 = pendingCondition st"
    by (auto simp: consumeNotify_injected_def split: option.splits)
  have "pendingCondition
          (fst (fst (consumeNotify_fsevents st1 coll1 (umap_begin (fseventWatchers st1)) False)))
        = pendingCondition st1"
    by (rule loop_frame) simp_all
  with g1 inj show ?thesis
    by (auto simp: consumeNotify_def leaf_consumeNotify_def split: prod.splits sum.splits)
qed

subsection \<open>Waiting and the pending flag\<close>

lemma producer_step_keeps_pending: "hasPending lock \<Longrightarrow> hasPending (producer_step lock c)"
  by (cases c) (simp_all add: notifyOneOrStop_def stopAll_def)

lemma producer_steps_keep_pending:
  "hasPending lock \<Longrightarrow> hasPending (foldl producer_step lock cs)"
  by (induction cs arbitrary: lock) (simp_all add: producer_step_keeps_pending)

lemma gate_step_keeps_pending: "hasPending lock \<Longrightarrow> hasPending (gate_step lock c)"
  by (cases c)
    (simp_all add: notifyOneOrStop_def stopAll_def wait_def Let_def producer_steps_keep_pending)

lemma gate_run_keeps_pending: "hasPending lock \<Longrightarrow> hasPending (gate_run lock cs)"
  unfolding gate_run_def
  by (induction cs arbitrary: lock) (simp_all add: gate_step_keeps_pending)

text \<open>
  What \<^verbatim>\<open>wait\<close> does. It returns false at once, without blocking, when stop was requested.
  Otherwise it blocks and returns \<^verbatim>\<open>hasPending\<close> as the other threads left it, writing
  neither flag itself. But nothing else clears \<^verbatim>\<open>hasPending\<close> either: no call on the
  condition does, and \<^verbatim>\<open>consumeNotify\<close> leaves both flags as they are. So once the flag is
  set and stop is not requested, \<^verbatim>\<open>waitNotify\<close> after a drain returns true again.
\<close>

lemma wait_reads_pending_never_cleared:
  "(shouldStop lock \<longrightarrow> wait t others lock = (False, lock, [])) \<and>
   (\<not> shouldStop lock \<longrightarrow>
      wait t others lock =
        (hasPending (foldl producer_step lock others), foldl producer_step lock others,
         [wait_for t]) \<and>
      fst (snd (wait t [] lock)) = lock) \<and>
   (hasPending lock \<longrightarrow> hasPending (gate_run lock cs)) \<and>
   pendingCondition (fst (fst (consumeNotify now st coll))) = pendingCondition st \<and>
   (hasPending (pendingCondition st) \<and> \<not> shouldStop (pendingCondition st) \<longrightarrow>
      fst (waitNotify t others (fst (fst (consumeNotify now st coll)))))"
  using gate_run_keeps_pending [of lock cs]
    producer_steps_keep_pending [of "pendingCondition st" others]
  by (simp add: wait_def waitNotify_def consumeNotify_gate Let_def)

text \<open>
  C6 does not hold of the code. Its first part does: \<^verbatim>\<open>wait\<close> returns false at once when
  stop was requested, and otherwise returns the pending flag without clearing it. But the
  flag is only ever set, by \<^verbatim>\<open>notifyOneOrStop\<close>; the drain does not consume it. A notification
  arrives (here through \<^verbatim>\<open>injectRecrawl\<close>), the consumer drains, nothing new is notified, and
  \<^verbatim>\<open>waitNotify\<close> still returns true, before and after a second drain that adds nothing and
  returns \<^verbatim>\<open>{false, false}\<close>: it returns true with no event pending.
\<close>

theorem wait_true_after_drain_nothing_pending:
  "fst (waitNotify 0 []
      (fst (fst (consumeNotify 5 (injectRecrawl ''/R/b'' (state_init ''/R'')) [])))) \<and>
   consumeNotify 6 (fst (fst (consumeNotify 5 (injectRecrawl ''/R/b'' (state_init ''/R'')) [])))
       [] =
     ((fst (fst (consumeNotify 5 (injectRecrawl ''/R/b'' (state_init ''/R'')) [])), []),
      Inr (False, False)) \<and>
   fst (waitNotify 0 []
      (fst (fst (consumeNotify 6
         (fst (fst (consumeNotify 5 (injectRecrawl ''/R/b'' (state_init ''/R'')) []))) []))))"
  by (simp add: consumeNotify_def consumeNotify_injected_def injectRecrawl_def state_init_def
      Inner_init_def notifyOneOrStop_def loop_end umap_begin_def leaf_consumeNotify_def
      leaf_new_def coll_add_def waitNotify_def wait_def)

subsection \<open>Starting the watcher\<close>

text \<open>
  C10, as the code has it. \<^verbatim>\<open>start\<close> never returns false, and neither does \<^verbatim>\<open>startThread\<close>, so
  the callers' check of its result never fails. For every root \<^verbatim>\<open>start\<close> registers the
  root's cookie directory first. When the system grants the monitor thread of the kqueue
  watcher, the thread is spawned and \<^verbatim>\<open>start\<close> returns true, changing nothing else. When it
  does not, \<^verbatim>\<open>start\<close> fails with the exception of the thread's constructor: the cookie
  directory is registered and no thread is spawned.
\<close>

theorem start_true_or_throws:
  "start spawn_ok st =
     (if spawn_ok then
        (st\<lparr>calls := calls st @ [addCookieDir (root_path st), thread_spawn KQueue]\<rparr>, Inr True)
      else (st\<lparr>calls := calls st @ [addCookieDir (root_path st)]\<rparr>, Inl system_error)) \<and>
   snd (start spawn_ok st) \<noteq> Inr False \<and>
   snd (startThread spawn_ok target st) \<noteq> Inr False"
  by (simp add: start_def startThread_def called_def)

text \<open>
  The claim as worded, that \<^verbatim>\<open>start\<close> never reports failure and returns true unconditionally,
  fails when the system refuses the thread.
\<close>

theorem start_thread_refused_counterexample:
  "start False (state_init ''/R'') =
     ((state_init ''/R'')\<lparr>calls := [addCookieDir ''/R'']\<rparr>, Inl system_error) \<and>
   snd (start False (state_init ''/R'')) \<noteq> Inr True"
  by (simp add: start_def startThread_def called_def state_init_def)

subsection \<open>The recrawl command\<close>

text \<open>
  The two early exits of the command: with a wrong number of arguments, or on a root that
  does not run this watcher, it sends one error response and returns with the view as it was.
\<close>

lemma recrawl_command_rejects:
  "json_array_size args \<noteq> 3 \<or> watcherFromRoot root = None \<Longrightarrow>
   \<exists>msg. cmd_debug_kqueue_and_fsevents_recrawl to_w_string root args =
     ((root, [error_response msg]), Inr ())"
  by (auto simp: cmd_debug_kqueue_and_fsevents_recrawl_def)

lemma recrawl_command_accepts:
  "cmd_debug_kqueue_and_fsevents_recrawl w_string_of_cstr
     (InMemoryView (KQueueAndFSEventsWatcher st)) (json_array [a0, a1, json_string p]) =
   ((InMemoryView (KQueueAndFSEventsWatcher (injectRecrawl p st)), [ok_response]), Inr ())"
  by (simp add: cmd_debug_kqueue_and_fsevents_recrawl_def)

text \<open>
  C5 does not hold of the code for an argument that is not a string. The third exit has no
  \<^verbatim>\<open>return\<close>: after the error response the command goes on to build the \<^verbatim>\<open>w_string\<close> from the
  null pointer and to call \<^verbatim>\<open>injectRecrawl\<close>. Whatever the constructor does with the null
  pointer, the command either faults there or stores a path in the watcher, notifies the
  condition and sends a second, successful response.
\<close>

theorem recrawl_command_bad_path_goes_on:
  "cmd_debug_kqueue_and_fsevents_recrawl to_w_string
     (InMemoryView (KQueueAndFSEventsWatcher st))
     (json_array [json_string ''debug-kqueue-and-fsevents-recrawl'', json_string r,
        json_integer n]) =
   (case to_w_string None of
      Inl f \<Rightarrow>
        ((InMemoryView (KQueueAndFSEventsWatcher st),
          [error_response
             ''invalid value for argument 2, expected a string naming the path to trigger a recrawl on'']),
         Inl f)
    | Inr wp \<Rightarrow>
        ((InMemoryView (KQueueAndFSEventsWatcher
            (st\<lparr>injectedRecrawl := Some wp,
                pendingCondition := fst (snd (notifyOneOrStop (pendingCondition st)))\<rparr>)),
          [error_response
             ''invalid value for argument 2, expected a string naming the path to trigger a recrawl on'',
           ok_response]),
         Inr ()))"
  by (simp add: cmd_debug_kqueue_and_fsevents_recrawl_def injectRecrawl_def
      split: sum.splits)

text \<open>With a constructor that measures the C string, the command faults on the null pointer.\<close>

lemma recrawl_command_bad_path_null_pointer:
  "cmd_debug_kqueue_and_fsevents_recrawl w_string_of_cstr
     (InMemoryView (KQueueAndFSEventsWatcher st))
     (json_array [json_string ''debug-kqueue-and-fsevents-recrawl'', json_string ''/R'',
        json_integer 42]) =
   ((InMemoryView (KQueueAndFSEventsWatcher st),
     [error_response
        ''invalid value for argument 2, expected a string naming the path to trigger a recrawl on'']),
    Inl NullPointer)"
  by (simp add: cmd_debug_kqueue_and_fsevents_recrawl_def)

subsection \<open>A subdirectory watcher that cancels itself\<close>

lemma umap_store_keys: "map fst (umap_store m k v) = map fst m"
  by (induction m) (auto simp: umap_store_def)

lemma map_of_umap_store_other: "k' \<noteq> k \<Longrightarrow> map_of (umap_store m k v) k' = map_of m k'"
  by (induction m) (auto simp: umap_store_def)

lemma map_of_key: "k \<in> set (map fst m) \<Longrightarrow> \<exists>w. map_of m k = Some w"
  by (induction m) auto

lemma loop_result:
  assumes "set it \<subseteq> set (map fst (fseventWatchers st))" and "distinct it"
  shows "snd (consumeNotify_fsevents st coll it ret) =
     (if \<exists>k\<in>set it. \<exists>w. map_of (fseventWatchers st) k = Some w \<and> unusable w
      then Inl InvalidIterator
      else Inr (ret \<or> (\<exists>k\<in>set it. \<exists>w. map_of (fseventWatchers st) k = Some w \<and> detected w \<noteq> [])))"
  using assms
proof (induction it arbitrary: st coll ret)
  case Nil
  show ?case by (simp add: loop_end)
next
  case (Cons k rest)
  from Cons.prems obtain w where w: "map_of (fseventWatchers st) k = Some w"
    using map_of_key [of k "fseventWatchers st"] by auto
  show ?case
  proof (cases "unusable w")
    case True
    with w show ?thesis by (auto simp: loop_cancel)
  next
    case False
    let ?st = "st\<lparr>fseventWatchers := umap_store (fseventWatchers st) k (w\<lparr>detected := []\<rparr>)\<rparr>"
    have keys: "set rest \<subseteq> set (map fst (fseventWatchers ?st))"
      using Cons.prems by (simp add: umap_store_keys)
    have other: "\<And>k'. k' \<in> set rest \<Longrightarrow>
        map_of (fseventWatchers ?st) k' = map_of (fseventWatchers st) k'"
    proof -
      fix k' assume "k' \<in> set rest"
      with Cons.prems have "k' \<noteq> k" by auto
      then show "map_of (fseventWatchers ?st) k' = map_of (fseventWatchers st) k'"
        by (simp add: map_of_umap_store_other)
    qed
    have "snd (consumeNotify_fsevents st coll (k # rest) ret) =
          snd (consumeNotify_fsevents ?st (coll @ detected w) rest (ret \<or> detected w \<noteq> []))"
      using w False by (simp add: loop_keep)
    also have "\<dots> =
       (if \<exists>k\<in>set rest. \<exists>w. map_of (fseventWatchers ?st) k = Some w \<and> unusable w
        then Inl InvalidIterator
        else Inr ((ret \<or> detected w \<noteq> []) \<or>
          (\<exists>k\<in>set rest. \<exists>w. map_of (fseventWatchers ?st) k = Some w \<and> detected w \<noteq> [])))"
      using Cons.IH [OF keys] Cons.prems by simp
    also have "\<dots> =
       (if \<exists>k\<in>set rest. \<exists>w. map_of (fseventWatchers st) k = Some w \<and> unusable w
        then Inl InvalidIterator
        else Inr ((ret \<or> detected w \<noteq> []) \<or>
          (\<exists>k\<in>set rest. \<exists>w. map_of (fseventWatchers st) k = Some w \<and> detected w \<noteq> [])))"
      using other by (simp cong: bex_cong)
    finally show ?thesis using w False by auto
  qed
qed

text \<open>
  C9 does not hold of the code. The loop erases the element its own iterator stands on and
  then advances that iterator (\<^verbatim>\<open>continue\<close>), which the erasure has invalidated. With the
  keys of the map distinct, as they are in an \<^verbatim>\<open>unordered_map\<close>, \<^verbatim>\<open>consumeNotify\<close> ends in
  this undefined step exactly when some subdirectory watcher reports \<^verbatim>\<open>cancelSelf\<close>.
\<close>

theorem drain_faults_iff_subdir_cancels:
  assumes "distinct (map fst (fseventWatchers st))"
  shows "(snd (consumeNotify now st coll) = Inl InvalidIterator) =
         (\<exists>e\<in>set (fseventWatchers st). unusable (snd e))"
proof -
  obtain st1 coll1 where inj: "consumeNotify_injected now st coll = (st1, coll1)"
    by (cases "consumeNotify_injected now st coll")
  then have m: "fseventWatchers st1 = fseventWatchers st"
    by (auto simp: consumeNotify_injected_def split: option.splits)
  let ?it = "umap_begin (fseventWatchers st1)"
  have r: "snd (consumeNotify_fsevents st1 coll1 ?it False) =
     (if \<exists>k\<in>set ?it. \<exists>w. map_of (fseventWatchers st1) k = Some w \<and> unusable w
      then Inl InvalidIterator
      else Inr (False \<or> (\<exists>k\<in>set ?it. \<exists>w. map_of (fseventWatchers st1) k = Some w \<and> detected w \<noteq> [])))"
    using assms m by (intro loop_result) (simp_all add: umap_begin_def)
  have bad: "(\<exists>k\<in>set ?it. \<exists>w. map_of (fseventWatchers st1) k = Some w \<and> unusable w) =
        (\<exists>e\<in>set (fseventWatchers st). unusable (snd e))"
    using assms m by (force simp: umap_begin_def)
  show ?thesis
    using inj r bad
    by (auto simp: consumeNotify_def leaf_consumeNotify_def split: prod.splits sum.splits if_splits)
qed


text \<open>
  Three watchers, the second of which cancels itself: the first is drained, the second is
  torn down, the invalid iterator is advanced, and the third, which has a change to hand
  over, is not visited.
\<close>

theorem drain_faults_iff_subdir_cancels_witness:
  "distinct (map fst [(''/R/a'', leaf_new), (''/R/b'', leaf_new\<lparr>unusable := True\<rparr>),
       (''/R/c'', leaf_new\<lparr>detected := [\<lparr>ev_path = ''/R/c/f'', ev_time = 1, ev_flags = {W_PENDING_VIA_NOTIFY}\<rparr>]\<rparr>)]) \<and>
   consumeNotify 2
     ((state_init ''/R'')\<lparr>fseventWatchers :=
        [(''/R/a'', leaf_new), (''/R/b'', leaf_new\<lparr>unusable := True\<rparr>),
         (''/R/c'', leaf_new\<lparr>detected := [\<lparr>ev_path = ''/R/c/f'', ev_time = 1, ev_flags = {W_PENDING_VIA_NOTIFY}\<rparr>]\<rparr>)]\<rparr>) [] =
   (((state_init ''/R'')\<lparr>fseventWatchers :=
        [(''/R/a'', leaf_new),
         (''/R/c'', leaf_new\<lparr>detected := [\<lparr>ev_path = ''/R/c/f'', ev_time = 1, ev_flags = {W_PENDING_VIA_NOTIFY}\<rparr>]\<rparr>)],
        calls := [leaf_signal (FSEvents ''/R/b''), removeCookieDir ''/R/b'']\<rparr>, []),
    Inl InvalidIterator)"
  using drain_faults_iff_subdir_cancels
    [of "(state_init ''/R'')\<lparr>fseventWatchers :=
        [(''/R/a'', leaf_new), (''/R/b'', leaf_new\<lparr>unusable := True\<rparr>),
         (''/R/c'', leaf_new\<lparr>detected := [\<lparr>ev_path = ''/R/c/f'', ev_time = 1, ev_flags = {W_PENDING_VIA_NOTIFY}\<rparr>]\<rparr>)]\<rparr>" 2 "[]"]
  by (simp add: consumeNotify_def consumeNotify_injected_def state_init_def umap_begin_def
      loop_keep loop_cancel teardown_def leaf_new_def umap_store_def umap_erase_def
      leaf_signalThreads_def)

text \<open>
  C2 at a map with one watcher that reports \<^verbatim>\<open>cancelSelf\<close>: the watcher is told to stop, its
  cookie directory is removed once and its element is erased, as the claim says; but the
  loop then advances the iterator of the erased element, so the drain has no defined result
  and the root watcher is not reached.
\<close>

theorem subdir_cancel_teardown_then_fault:
  "consumeNotify 2
     ((state_init ''/R'')\<lparr>fseventWatchers := [(''/R/a'', leaf_new\<lparr>unusable := True\<rparr>)]\<rparr>) [] =
   (((state_init ''/R'')\<lparr>fseventWatchers := [],
        calls := [leaf_signal (FSEvents ''/R/a''), removeCookieDir ''/R/a'']\<rparr>, []),
    Inl InvalidIterator)"
  by (simp add: consumeNotify_def consumeNotify_injected_def state_init_def umap_begin_def
      loop_cancel teardown_def leaf_new_def umap_store_def umap_erase_def
      leaf_signalThreads_def)

text \<open>Whenever the drain returns, its \<^verbatim>\<open>cancelSelf\<close> is that of the root watcher.\<close>

lemma consumeNotify_cancelSelf_of_root:
  "snd (consumeNotify now st coll) = Inr (added, cancel) \<Longrightarrow> cancel = unusable (kqueueWatcher st)"
proof -
  assume r: "snd (consumeNotify now st coll) = Inr (added, cancel)"
  obtain st1 coll1 where inj: "consumeNotify_injected now st coll = (st1, coll1)"
    by (cases "consumeNotify_injected now st coll")
  then have k1: "kqueueWatcher st1 = kqueueWatcher st"
    by (auto simp: consumeNotify_injected_def split: option.splits)
  have "kqueueWatcher
          (fst (fst (consumeNotify_fsevents st1 coll1 (umap_begin (fseventWatchers st1)) False)))
        = kqueueWatcher st1"
    by (rule loop_frame) simp_all
  with k1 inj r show ?thesis
    by (auto simp: consumeNotify_def leaf_consumeNotify_def split: prod.splits sum.splits)
qed

subsection \<open>The injected recrawl\<close>

lemma umap_store_absent: "k \<notin> fst ` set m \<Longrightarrow> umap_store m k v = m"
  by (induction m) (auto simp: umap_store_def)

lemma umap_store_same:
  "distinct (map fst m) \<Longrightarrow> map_of m k = Some w \<Longrightarrow> umap_store m k w = m"
proof (induction m)
  case Nil
  then show ?case by simp
next
  case (Cons e m)
  show ?case
  proof (cases "fst e = k")
    case True
    with Cons.prems have "k \<notin> fst ` set m" and "e = (k, w)" by (auto simp: prod_eq_iff)
    then show ?thesis using umap_store_absent [of k m w] by (simp add: umap_store_def)
  next
    case False
    with Cons have "umap_store m k w = m" by auto
    with False show ?thesis by (simp add: umap_store_def)
  qed
qed

lemma leaf_drained_quiet: "detected w = [] \<Longrightarrow> w\<lparr>detected := []\<rparr> = w"
  by (cases w) simp

lemma loop_quiet:
  assumes "distinct (map fst (fseventWatchers st))"
      and "set it \<subseteq> set (map fst (fseventWatchers st))"
      and "\<forall>e\<in>set (fseventWatchers st). detected (snd e) = [] \<and> \<not> unusable (snd e)"
  shows "consumeNotify_fsevents st coll it ret = ((st, coll), Inr ret)"
  using assms(2)
proof (induction it arbitrary: ret)
  case Nil
  show ?case by (simp add: loop_end)
next
  case (Cons k rest)
  from Cons.prems obtain w where w: "map_of (fseventWatchers st) k = Some w"
    using map_of_key [of k "fseventWatchers st"] by auto
  then have "(k, w) \<in> set (fseventWatchers st)" by (rule map_of_SomeD)
  with assms(3) have q: "detected w = []" "\<not> unusable w" by auto
  have "st\<lparr>fseventWatchers := umap_store (fseventWatchers st) k (w\<lparr>detected := []\<rparr>)\<rparr> = st"
    using assms(1) w q by (simp add: leaf_drained_quiet umap_store_same)
  with w q Cons show ?case by (simp add: loop_keep)
qed

text \<open>
  C1 does not hold of the code. The first block of \<^verbatim>\<open>consumeNotify\<close> adds the injected
  recrawl to the sink and does not touch \<^verbatim>\<open>ret\<close>, which only collects the \<^verbatim>\<open>addedPending\<close>
  of the leaf watchers. With no leaf watcher holding a change and none cancelling itself,
  the drain that follows \<^verbatim>\<open>injectRecrawl\<close> adds the event and returns \<^verbatim>\<open>{false, false}\<close>; so
  does the next drain, which adds nothing.
\<close>

theorem injected_recrawl_not_counted:
  assumes "distinct (map fst (fseventWatchers st))"
      and "\<forall>e\<in>set (fseventWatchers st). detected (snd e) = [] \<and> \<not> unusable (snd e)"
      and "detected (kqueueWatcher st) = []" and "\<not> unusable (kqueueWatcher st)"
  shows "consumeNotify now (injectRecrawl p st) coll =
           (((injectRecrawl p st)\<lparr>injectedRecrawl := None\<rparr>,
             coll @ [\<lparr>ev_path = p, ev_time = now,
                      ev_flags = {W_PENDING_VIA_NOTIFY, W_PENDING_RECURSIVE, W_PENDING_IS_DESYNCED}\<rparr>]),
            Inr (False, False)) \<and>
         consumeNotify now' ((injectRecrawl p st)\<lparr>injectedRecrawl := None\<rparr>) coll' =
           (((injectRecrawl p st)\<lparr>injectedRecrawl := None\<rparr>, coll'), Inr (False, False))"
proof -
  let ?q = "(injectRecrawl p st)\<lparr>injectedRecrawl := None\<rparr>"
  have m: "fseventWatchers ?q = fseventWatchers st" and kq: "kqueueWatcher ?q = kqueueWatcher st"
    by (simp_all add: injectRecrawl_def)
  have loop: "\<And>c. consumeNotify_fsevents ?q c (umap_begin (fseventWatchers st)) False =
      ((?q, c), Inr False)"
    using assms(1,2) by (intro loop_quiet) (simp_all add: m umap_begin_def)
  have kqq: "?q\<lparr>kqueueWatcher := (kqueueWatcher st)\<lparr>detected := []\<rparr>\<rparr> = ?q"
    using assms(3) kq by (simp add: leaf_drained_quiet)
  have inj: "consumeNotify_injected now (injectRecrawl p st) coll =
      (?q, coll @ [\<lparr>ev_path = p, ev_time = now,
                      ev_flags = {W_PENDING_VIA_NOTIFY, W_PENDING_RECURSIVE, W_PENDING_IS_DESYNCED}\<rparr>])"
    by (simp add: consumeNotify_injected_def injectRecrawl_def coll_add_def insert_commute)
  have inj': "consumeNotify_injected now' ?q coll' = (?q, coll')"
    by (simp add: consumeNotify_injected_def)
  show ?thesis
    using assms(3,4) kqq
    by (simp add: consumeNotify_def inj inj' loop leaf_consumeNotify_def kq m)
qed


theorem injected_recrawl_not_counted_witness:
  "consumeNotify 5
     (injectRecrawl ''/R/b'' ((state_init ''/R'')\<lparr>fseventWatchers := [(''/R/a'', leaf_new)]\<rparr>))
     [] =
   (((state_init ''/R'')\<lparr>fseventWatchers := [(''/R/a'', leaf_new)],
        pendingCondition := \<lparr>shouldStop = False, hasPending = True\<rparr>\<rparr>,
     [\<lparr>ev_path = ''/R/b'', ev_time = 5,
        ev_flags = {W_PENDING_VIA_NOTIFY, W_PENDING_RECURSIVE, W_PENDING_IS_DESYNCED}\<rparr>]),
    Inr (False, False))"
  using injected_recrawl_not_counted
    [of "(state_init ''/R'')\<lparr>fseventWatchers := [(''/R/a'', leaf_new)]\<rparr>" 5 "''/R/b''" "[]"]
  by (simp add: state_init_def leaf_new_def injectRecrawl_def notifyOneOrStop_def Inner_init_def)

lemma injectRecrawls_slot:
  "ps \<noteq> [] \<Longrightarrow> injectedRecrawl (injectRecrawls ps st) = Some (last ps)"
  unfolding injectRecrawls_def
  by (induction ps arbitrary: st rule: rev_induct) (simp_all add: injectRecrawl_def)

lemma loop_sink:
  "consumeNotify_fsevents st (c1 @ c2) it ret =
     (case consumeNotify_fsevents st c2 it ret of ((s, c), r) \<Rightarrow> ((s, c1 @ c), r))"
proof (induction it arbitrary: st c2 ret)
  case Nil
  show ?case by (simp add: loop_end)
next
  case (Cons k rest)
  show ?case
  proof (cases "map_of (fseventWatchers st) k")
    case None
    then show ?thesis by (simp add: loop_invalid)
  next
    case (Some w)
    show ?thesis
    proof (cases "unusable w")
      case True
      with Some show ?thesis by (simp add: loop_cancel)
    next
      case False
      with Some show ?thesis
        using Cons.IH [of _ "c2 @ detected w"] by (simp add: loop_keep)
    qed
  qed
qed

lemma consumeNotify_sink:
  assumes "injectedRecrawl st = None"
  shows "consumeNotify now st (c1 @ c2) =
     (case consumeNotify now st c2 of ((s, c), r) \<Rightarrow> ((s, c1 @ c), r))"
  using assms
  by (simp add: consumeNotify_def consumeNotify_injected_def loop_sink [of st c1 c2]
      leaf_consumeNotify_def split: prod.splits sum.splits)

lemma consumeNotify_injected_Some:
  assumes "injectedRecrawl st = Some p"
  shows "consumeNotify now st coll =
     consumeNotify now (st\<lparr>injectedRecrawl := None\<rparr>)
       (coll @ [\<lparr>ev_path = p, ev_time = now,
          ev_flags = {W_PENDING_VIA_NOTIFY, W_PENDING_RECURSIVE, W_PENDING_IS_DESYNCED}\<rparr>])"
  using assms
  by (simp add: consumeNotify_def consumeNotify_injected_def coll_add_def insert_commute)

lemma consumeNotify_slot:
  "injectedRecrawl (fst (fst (consumeNotify now st coll))) = None"
proof -
  obtain st1 coll1 where inj: "consumeNotify_injected now st coll = (st1, coll1)"
    by (cases "consumeNotify_injected now st coll")
  then have g1: "injectedRecrawl st1 = None"
    by (auto simp: consumeNotify_injected_def split: option.splits)
  have "injectedRecrawl
          (fst (fst (consumeNotify_fsevents st1 coll1 (umap_begin (fseventWatchers st1)) False)))
        = injectedRecrawl st1"
    by (rule loop_frame) simp_all
  with g1 inj show ?thesis
    by (auto simp: consumeNotify_def leaf_consumeNotify_def split: prod.splits sum.splits)
qed

text \<open>
  C3. After a non-empty sequence of \<^verbatim>\<open>injectRecrawl\<close> calls, one \<^verbatim>\<open>consumeNotify\<close> adds to
  the sink exactly one entry more than the same drain does with the slot empty: it is for
  the path injected last, carries the flags via-notify, recursive and desynced and no
  other, is stamped with the time read, and stands before whatever the leaf watchers hand
  over. The result of the drain is the same as with the slot empty. The slot is empty
  afterwards, so the first block of the next drain adds nothing and changes nothing.
\<close>

theorem injected_recrawl_single_shot:
  assumes "ps \<noteq> []"
  shows "snd (fst (consumeNotify now (injectRecrawls ps st) coll)) =
           coll @ [\<lparr>ev_path = last ps, ev_time = now,
                     ev_flags = {W_PENDING_VIA_NOTIFY, W_PENDING_RECURSIVE, W_PENDING_IS_DESYNCED}\<rparr>]
             @ snd (fst (consumeNotify now ((injectRecrawls ps st)\<lparr>injectedRecrawl := None\<rparr>) [])) \<and>
         snd (fst (consumeNotify now ((injectRecrawls ps st)\<lparr>injectedRecrawl := None\<rparr>) coll)) =
           coll @ snd (fst (consumeNotify now ((injectRecrawls ps st)\<lparr>injectedRecrawl := None\<rparr>) [])) \<and>
         snd (consumeNotify now (injectRecrawls ps st) coll) =
           snd (consumeNotify now ((injectRecrawls ps st)\<lparr>injectedRecrawl := None\<rparr>) coll) \<and>
         injectedRecrawl (fst (fst (consumeNotify now (injectRecrawls ps st) coll))) = None \<and>
         consumeNotify_injected now' (fst (fst (consumeNotify now (injectRecrawls ps st) coll))) coll' =
           (fst (fst (consumeNotify now (injectRecrawls ps st) coll)), coll')"
proof -
  let ?st = "injectRecrawls ps st"
  let ?q = "?st\<lparr>injectedRecrawl := None\<rparr>"
  let ?ev = "\<lparr>ev_path = last ps, ev_time = now,
                ev_flags = {W_PENDING_VIA_NOTIFY, W_PENDING_RECURSIVE, W_PENDING_IS_DESYNCED}\<rparr>"
  have slot: "injectedRecrawl ?st = Some (last ps)"
    using assms by (rule injectRecrawls_slot)
  have q: "injectedRecrawl ?q = None" by simp
  have a: "consumeNotify now ?st coll = consumeNotify now ?q (coll @ [?ev])"
    using slot by (rule consumeNotify_injected_Some)
  have b: "\<And>c. consumeNotify now ?q c =
      (case consumeNotify now ?q [] of ((s, c'), r) \<Rightarrow> ((s, c @ c'), r))"
  proof -
    fix c
    show "consumeNotify now ?q c =
      (case consumeNotify now ?q [] of ((s, c'), r) \<Rightarrow> ((s, c @ c'), r))"
      using consumeNotify_sink [OF q, of now c "[]"] unfolding append_Nil2 .
  qed
  have "snd (fst (consumeNotify now ?st coll)) = coll @ [?ev] @ snd (fst (consumeNotify now ?q []))"
    unfolding a by (subst b) (simp split: prod.splits)
  moreover have "snd (fst (consumeNotify now ?q coll)) = coll @ snd (fst (consumeNotify now ?q []))"
    by (subst b) (simp split: prod.splits)
  moreover have "snd (consumeNotify now ?st coll) = snd (consumeNotify now ?q coll)"
    unfolding a by (subst b, subst (2) b) (simp split: prod.splits)
  moreover have "consumeNotify_injected now' (fst (fst (consumeNotify now ?st coll))) coll' =
           (fst (fst (consumeNotify now ?st coll)), coll')"
    by (simp add: consumeNotify_injected_def consumeNotify_slot)
  ultimately show ?thesis by (simp add: consumeNotify_slot)
qed

theorem injected_recrawl_single_shot_witness:
  "snd (fst (consumeNotify 5
      (injectRecrawls [''/R/x'', ''/R/b'']
         ((state_init ''/R'')\<lparr>fseventWatchers :=
            [(''/R/a'', leaf_new\<lparr>detected :=
                [\<lparr>ev_path = ''/R/a/f'', ev_time = 4, ev_flags = {W_PENDING_VIA_NOTIFY}\<rparr>]\<rparr>)]\<rparr>))
      [\<lparr>ev_path = ''/R/old'', ev_time = 1, ev_flags = {}\<rparr>])) =
   [\<lparr>ev_path = ''/R/old'', ev_time = 1, ev_flags = {}\<rparr>,
    \<lparr>ev_path = ''/R/b'', ev_time = 5,
       ev_flags = {W_PENDING_VIA_NOTIFY, W_PENDING_RECURSIVE, W_PENDING_IS_DESYNCED}\<rparr>,
    \<lparr>ev_path = ''/R/a/f'', ev_time = 4, ev_flags = {W_PENDING_VIA_NOTIFY}\<rparr>] \<and>
   injectedRecrawl (fst (fst (consumeNotify 5
      (injectRecrawls [''/R/x'', ''/R/b'']
         ((state_init ''/R'')\<lparr>fseventWatchers :=
            [(''/R/a'', leaf_new\<lparr>detected :=
                [\<lparr>ev_path = ''/R/a/f'', ev_time = 4, ev_flags = {W_PENDING_VIA_NOTIFY}\<rparr>]\<rparr>)]\<rparr>))
      [\<lparr>ev_path = ''/R/old'', ev_time = 1, ev_flags = {}\<rparr>]))) = None"
  using injected_recrawl_single_shot
    [of "[''/R/x'', ''/R/b'']" 5
        "(state_init ''/R'')\<lparr>fseventWatchers :=
            [(''/R/a'', leaf_new\<lparr>detected :=
                [\<lparr>ev_path = ''/R/a/f'', ev_time = 4, ev_flags = {W_PENDING_VIA_NOTIFY}\<rparr>]\<rparr>)]\<rparr>"
        "[\<lparr>ev_path = ''/R/old'', ev_time = 1, ev_flags = {}\<rparr>]"]
  by (simp add: consumeNotify_def consumeNotify_injected_def injectRecrawls_def
      injectRecrawl_def state_init_def umap_begin_def loop_keep loop_end leaf_new_def
      leaf_consumeNotify_def)

subsection \<open>Registering directories\<close>

lemma umap_find_end: "(umap_find m k = umap_end) = (k \<notin> set (map fst m))"
  by (simp add: umap_find_def umap_end_def) blast

lemma ancestors_shorter:
  "a \<in> set (ancestors d) \<Longrightarrow> length (getFullPath a) < length (getFullPath d)"
  by (induction d rule: ancestors.induct) auto

text \<open>What a registration does, case by case.\<close>

lemma startWatchDir_root:
  "dir_parent d = None \<Longrightarrow>
   startWatchDir ok sp d p st = (called (leaf_startWatchDir KQueue p) st, Inr (w_dir_open p))"
  by (simp add: startWatchDir_def)

lemma startWatchDir_other:
  "dir_parent d = Some par \<Longrightarrow> getFullPath par \<noteq> root_path st \<Longrightarrow>
   startWatchDir ok sp d p st = (st, Inr (w_dir_open p))"
  by (simp add: startWatchDir_def)

lemma startWatchDir_known:
  "dir_parent d = Some par \<Longrightarrow> getFullPath par = root_path st \<Longrightarrow>
   getFullPath d \<in> set (map fst (fseventWatchers st)) \<Longrightarrow>
   startWatchDir ok sp d p st = (st, Inr (w_dir_open p))"
  by (simp add: startWatchDir_def umap_find_end Let_def)

lemma startWatchDir_new:
  "dir_parent d = Some par \<Longrightarrow> getFullPath par = root_path st \<Longrightarrow>
   getFullPath d \<notin> set (map fst (fseventWatchers st)) \<Longrightarrow>
   startWatchDir ok sp d p st =
     (st\<lparr>fseventWatchers := fseventWatchers st @ [(getFullPath d, leaf_new)],
         calls := calls st @ [addCookieDir (getFullPath d), leaf_start (FSEvents (getFullPath d))]
                    @ (if ok \<and> sp then [thread_spawn (FSEvents (getFullPath d))] else [])\<rparr>,
      if \<not> ok then Inl (runtime_error ''couldn't start fsEvent'')
      else if \<not> sp then Inl system_error else Inr (w_dir_open p))"
  by (simp add: startWatchDir_def umap_find_end Let_def umap_emplace_def called_def
      startThread_def)

lemma startWatchDir_root_path: "root_path (fst (startWatchDir ok sp d p st)) = root_path st"
  by (cases "dir_parent d")
    (auto simp: startWatchDir_def Let_def called_def startThread_def)

lemma startWatchDir_keys:
  "set (map fst (fseventWatchers (fst (startWatchDir ok sp d p st)))) =
     set (map fst (fseventWatchers st)) \<union> (if top_level st d then {getFullPath d} else {})"
proof (cases "dir_parent d")
  case None
  then show ?thesis by (simp add: startWatchDir_root top_level_def called_def)
next
  case (Some par)
  show ?thesis
  proof (cases "getFullPath par = root_path st")
    case False
    with Some show ?thesis by (simp add: startWatchDir_other top_level_def)
  next
    case True
    with Some show ?thesis
      by (cases "getFullPath d \<in> set (map fst (fseventWatchers st))")
        (auto simp: startWatchDir_known startWatchDir_new top_level_def)
  qed
qed

lemma startWatchDir_distinct:
  "distinct (map fst (fseventWatchers st)) \<Longrightarrow>
   distinct (map fst (fseventWatchers (fst (startWatchDir ok sp d p st))))"
proof (cases "dir_parent d")
  case None
  assume "distinct (map fst (fseventWatchers st))"
  with None show ?thesis by (simp add: startWatchDir_root called_def)
next
  case (Some par)
  assume dist: "distinct (map fst (fseventWatchers st))"
  show ?thesis
  proof (cases "getFullPath par = root_path st")
    case False
    with Some dist show ?thesis by (simp add: startWatchDir_other)
  next
    case True
    with Some dist show ?thesis
      by (cases "getFullPath d \<in> set (map fst (fseventWatchers st))")
        (auto simp: startWatchDir_known startWatchDir_new)
  qed
qed


lemma startWatchDirs_root_path: "root_path (startWatchDirs regs st) = root_path st"
  by (induction regs st rule: startWatchDirs.induct) (simp_all add: startWatchDir_root_path)

lemma top_level_startWatchDir: "top_level (fst (startWatchDir ok sp d p st)) d' = top_level st d'"
  by (simp add: top_level_def startWatchDir_root_path)

lemma startWatchDirs_distinct:
  "distinct (map fst (fseventWatchers st)) \<Longrightarrow>
   distinct (map fst (fseventWatchers (startWatchDirs regs st)))"
  by (induction regs st rule: startWatchDirs.induct) (simp_all add: startWatchDir_distinct)

lemma startWatchDirs_keys:
  "set (map fst (fseventWatchers (startWatchDirs regs st))) =
     set (map fst (fseventWatchers st)) \<union>
     {getFullPath d | ok sp d p. (ok, sp, d, p) \<in> set regs \<and> top_level st d}"
proof (induction regs st rule: startWatchDirs.induct)
  case (1 st)
  show ?case by simp
next
  case (2 ok sp d p rs st)
  have "set (map fst (fseventWatchers (startWatchDirs ((ok, sp, d, p) # rs) st))) =
        (set (map fst (fseventWatchers st)) \<union> (if top_level st d then {getFullPath d} else {})) \<union>
        {getFullPath d' | ok' sp' d' p'. (ok', sp', d', p') \<in> set rs \<and> top_level st d'}"
    using 2 by (simp add: startWatchDir_keys top_level_startWatchDir del: set_map)
  also have "\<dots> = set (map fst (fseventWatchers st)) \<union>
     {getFullPath d' | ok' sp' d' p'. (ok', sp', d', p') \<in> set ((ok, sp, d, p) # rs) \<and> top_level st d'}"
    by auto
  finally show ?case .
qed

lemma startWatchDirs_known:
  "top_level st d \<Longrightarrow> getFullPath d \<in> set (map fst (fseventWatchers st)) \<Longrightarrow>
   \<forall>r\<in>set regs. fst (snd (snd r)) = d \<Longrightarrow> startWatchDirs regs st = st"
proof (induction regs)
  case Nil
  show ?case by simp
next
  case (Cons r regs)
  obtain ok sp d' p where r: "r = (ok, sp, d', p)" by (cases r)
  with Cons.prems have d': "d' = d" by simp
  from Cons.prems(1) obtain par where "dir_parent d = Some par" "getFullPath par = root_path st"
    by (auto simp: top_level_def)
  then have "startWatchDir ok sp d p st = (st, Inr (w_dir_open p))"
    using Cons.prems(2) by (rule startWatchDir_known)
  with Cons r d' show ?case by simp
qed

lemma startWatchDirs_same:
  assumes "top_level st d" and "getFullPath d \<notin> set (map fst (fseventWatchers st))"
      and "\<forall>r\<in>set rest. fst (snd (snd r)) = d"
  shows "startWatchDirs ((ok, sp, d, p) # rest) st =
     st\<lparr>fseventWatchers := fseventWatchers st @ [(getFullPath d, leaf_new)],
         calls := calls st @ [addCookieDir (getFullPath d), leaf_start (FSEvents (getFullPath d))]
                    @ (if ok \<and> sp then [thread_spawn (FSEvents (getFullPath d))] else [])\<rparr>"
proof -
  let ?st = "st\<lparr>fseventWatchers := fseventWatchers st @ [(getFullPath d, leaf_new)],
         calls := calls st @ [addCookieDir (getFullPath d), leaf_start (FSEvents (getFullPath d))]
                    @ (if ok \<and> sp then [thread_spawn (FSEvents (getFullPath d))] else [])\<rparr>"
  from assms(1) obtain par where par: "dir_parent d = Some par" "getFullPath par = root_path st"
    by (auto simp: top_level_def)
  have first: "fst (startWatchDir ok sp d p st) = ?st"
    using par assms(2) by (simp add: startWatchDir_new)
  have "top_level ?st d" using assms(1) by (simp add: top_level_def)
  moreover have "getFullPath d \<in> set (map fst (fseventWatchers ?st))" by simp
  ultimately have "startWatchDirs rest ?st = ?st"
    using assms(3) by (rule startWatchDirs_known)
  with first show ?thesis by simp
qed

text \<open>
  C4. Whatever the sequence of \<^verbatim>\<open>startWatchDir\<close> calls, and whether or not the watchers they
  create start and are granted their monitor threads: the keys of the map stay distinct; the keys after the calls are the keys
  before and the full paths of the registered directories whose parent's path is the root's
  path; registering one such directory \<open>n > 0\<close> times on an empty map leaves one element,
  one cookie directory and one watcher started; registering the root adds no element, and
  registering a directory whose parent lies below the root changes nothing.
\<close>

theorem pool_one_entry_per_top_level_dir:
  "(distinct (map fst (fseventWatchers st)) \<longrightarrow>
      distinct (map fst (fseventWatchers (startWatchDirs regs st)))) \<and>
   set (map fst (fseventWatchers (startWatchDirs regs st))) =
     set (map fst (fseventWatchers st)) \<union>
     {getFullPath d | ok sp d p. (ok, sp, d, p) \<in> set regs \<and> top_level st d} \<and>
   (top_level st0 d \<and> fseventWatchers st0 = [] \<and> 0 < n \<longrightarrow>
      fseventWatchers (startWatchDirs (replicate n (ok, sp, d, p)) st0) = [(getFullPath d, leaf_new)] \<and>
      calls (startWatchDirs (replicate n (ok, sp, d, p)) st0) =
        calls st0 @ [addCookieDir (getFullPath d), leaf_start (FSEvents (getFullPath d))]
          @ (if ok \<and> sp then [thread_spawn (FSEvents (getFullPath d))] else [])) \<and>
   (dir_parent droot = None \<longrightarrow>
      fseventWatchers (fst (startWatchDir ok1 sp1 droot p1 st)) = fseventWatchers st) \<and>
   (dir_parent ddeep = Some par \<and> a \<in> set (ancestors par) \<and> getFullPath a = root_path st \<longrightarrow>
      fst (startWatchDir ok2 sp2 ddeep p2 st) = st)"
proof -
  have same: "top_level st0 d \<and> fseventWatchers st0 = [] \<and> 0 < n \<longrightarrow>
      startWatchDirs (replicate n (ok, sp, d, p)) st0 =
        st0\<lparr>fseventWatchers := fseventWatchers st0 @ [(getFullPath d, leaf_new)],
         calls := calls st0 @ [addCookieDir (getFullPath d), leaf_start (FSEvents (getFullPath d))]
                    @ (if ok \<and> sp then [thread_spawn (FSEvents (getFullPath d))] else [])\<rparr>"
  proof (intro impI, elim conjE)
    assume h: "top_level st0 d" "fseventWatchers st0 = []" "0 < n"
    then obtain m where n: "n = Suc m" by (cases n) auto
    show "startWatchDirs (replicate n (ok, sp, d, p)) st0 =
        st0\<lparr>fseventWatchers := fseventWatchers st0 @ [(getFullPath d, leaf_new)],
         calls := calls st0 @ [addCookieDir (getFullPath d), leaf_start (FSEvents (getFullPath d))]
                    @ (if ok \<and> sp then [thread_spawn (FSEvents (getFullPath d))] else [])\<rparr>"
      unfolding n replicate_Suc using h(1,2)
      by (intro startWatchDirs_same) simp_all
  qed
  have deep: "dir_parent ddeep = Some par \<and> a \<in> set (ancestors par) \<and> getFullPath a = root_path st \<longrightarrow>
      fst (startWatchDir ok2 sp2 ddeep p2 st) = st"
  proof (intro impI, elim conjE)
    assume h: "dir_parent ddeep = Some par" "a \<in> set (ancestors par)" "getFullPath a = root_path st"
    from h(2) have "length (getFullPath a) < length (getFullPath par)" by (rule ancestors_shorter)
    with h(3) have "getFullPath par \<noteq> root_path st" by auto
    with h(1) show "fst (startWatchDir ok2 sp2 ddeep p2 st) = st" by (simp add: startWatchDir_other)
  qed
  show ?thesis
    using same deep startWatchDirs_distinct [of st regs] startWatchDirs_keys [of regs st]
    by (auto simp: startWatchDir_root called_def simp del: set_map)
qed


theorem pool_one_entry_per_top_level_dir_witness:
  "distinct (map fst (fseventWatchers (startWatchDirs
      [(True, True, Dir ''/R'' None, ''/R''),
       (True, False, Dir ''a'' (Some (Dir ''/R'' None)), ''/R/a''),
       (False, True, Dir ''a'' (Some (Dir ''/R'' None)), ''/R/a''),
       (True, True, Dir ''x'' (Some (Dir ''a'' (Some (Dir ''/R'' None)))), ''/R/a/x'')]
      (state_init ''/R'')))) \<and>
   fseventWatchers (startWatchDirs
      (replicate 3 (True, True, Dir ''a'' (Some (Dir ''/R'' None)), ''/R/a'')) (state_init ''/R'')) =
     [(''/R/a'', leaf_new)] \<and>
   calls (startWatchDirs
      (replicate 3 (True, True, Dir ''a'' (Some (Dir ''/R'' None)), ''/R/a'')) (state_init ''/R'')) =
     [addCookieDir ''/R/a'', leaf_start (FSEvents ''/R/a''), thread_spawn (FSEvents ''/R/a'')] \<and>
   fseventWatchers (fst (startWatchDir True True (Dir ''/R'' None) ''/R'' (state_init ''/R''))) = [] \<and>
   fst (startWatchDir True True (Dir ''x'' (Some (Dir ''a'' (Some (Dir ''/R'' None))))) ''/R/a/x''
      (state_init ''/R'')) = state_init ''/R''"
  using pool_one_entry_per_top_level_dir
    [where st = "state_init ''/R''"
       and regs = "[(True, True, Dir ''/R'' None, ''/R''),
                    (True, False, Dir ''a'' (Some (Dir ''/R'' None)), ''/R/a''),
                    (False, True, Dir ''a'' (Some (Dir ''/R'' None)), ''/R/a''),
                    (True, True, Dir ''x'' (Some (Dir ''a'' (Some (Dir ''/R'' None)))), ''/R/a/x'')]"
       and ?st0.0 = "state_init ''/R''" and d = "Dir ''a'' (Some (Dir ''/R'' None))" and n = 3
       and ok = True and sp = True and p = "''/R/a''"
       and droot = "Dir ''/R'' None" and ?ok1.0 = True and ?sp1.0 = True and ?p1.0 = "''/R''"
       and ddeep = "Dir ''x'' (Some (Dir ''a'' (Some (Dir ''/R'' None))))"
       and par = "Dir ''a'' (Some (Dir ''/R'' None))" and a = "Dir ''/R'' None"
       and ?ok2.0 = True and ?sp2.0 = True and ?p2.0 = "''/R/a/x''"]
  by (simp add: state_init_def top_level_def)

end
